theory Spec2Isabelle
  imports Main "HOL-Library.Word"
begin

section \<open>Machine types of main.cpp\<close>

text \<open>
  The fence counter and the fence values are \<open>uint64_t\<close>, the client area dimensions
  \<open>uint32_t\<close>, the timeout of the operating system's wait a \<open>DWORD\<close> (32 bits,
  unsigned) and the result of every Direct3D call an \<open>HRESULT\<close> (32 bits, read as a
  signed number: negative means failure).  A \<open>std::chrono::milliseconds\<close> holds a
  signed 64-bit count, kept here as its two's complement bit pattern.
\<close>

type_synonym uint64_t = "64 word"
type_synonym uint32_t = "32 word"
type_synonym DWORD = "32 word"
type_synonym HRESULT = "32 word"
type_synonym HANDLE = nat
type_synonym milliseconds = "64 word"

text \<open>\<open>std::chrono::milliseconds::max()\<close>: the largest signed 64-bit count, \<open>2^63 - 1\<close>.\<close>

definition milliseconds_max :: milliseconds where
  "milliseconds_max = 0x7FFFFFFFFFFFFFFF"

text \<open>\<open>INFINITE\<close> of the Windows headers: the timeout that never elapses.\<close>

definition INFINITE :: DWORD where
  "INFINITE = 0xFFFFFFFF"

text \<open>The \<open>FAILED\<close> macro of the Windows headers: an \<open>HRESULT\<close> below zero.\<close>

definition FAILED :: "HRESULT \<Rightarrow> bool" where
  "FAILED hr = (sint hr < 0)"

text \<open>\<open>static_cast<DWORD>(duration.count())\<close>: the low 32 bits of the count.\<close>

definition to_DWORD :: "milliseconds \<Rightarrow> DWORD" where
  "to_DWORD duration = ucast duration"


section \<open>The consumer: command queue, fence and event\<close>

text \<open>
  The functions of main.cpp talk to the GPU through four calls of the platform:
  \<open>ID3D12CommandQueue::Signal\<close>, \<open>ID3D12Fence::GetCompletedValue\<close>,
  \<open>ID3D12Fence::SetEventOnCompletion\<close> and \<open>WaitForSingleObject\<close>.  They are
  modelled by their documented contract on an explicit state of the consumer:

  \<^item> \<open>completed\<close> is the value the fence currently holds (\<open>CreateFence\<close> starts it at 0);
  \<^item> \<open>queue\<close> holds the signal commands the command queue has not reached yet, first
    in first out, each with the milliseconds of GPU work in front of it;
  \<^item> \<open>clock\<close> counts the milliseconds the calling thread has spent so far;
  \<^item> \<open>pending\<close> holds the registrations made by \<open>SetEventOnCompletion\<close> that
    have not fired yet: the event handle and the fence value it is to be set at.  A
    registration stays until the fence reaches its value; nothing cancels it, not even
    the timeout of the wait it was made for;
  \<^item> \<open>events_set\<close> holds the events that are set.  The event of main.cpp is created
    auto-reset and not set (\<open>CreateEvent(NULL, FALSE, FALSE, NULL)\<close>): a wait that
    wakes on it resets it;
  \<^item> \<open>latency\<close> is the GPU work that stands in front of the next signal command;
  \<^item> \<open>signal_hr\<close> and \<open>event_hr\<close> are the results the device gives to the next
    \<open>Signal\<close> and \<open>SetEventOnCompletion\<close> (a lost device fails them);
  \<^item> \<open>calls\<close> records every call made to the platform, in order.

  Time passes for the calling thread only inside \<open>WaitForSingleObject\<close>; the GPU
  executes its queue while time passes, and every other call takes no time.
\<close>

datatype wait_status = WAIT_OBJECT_0 | WAIT_TIMEOUT

datatype api_call =
    Call_Signal uint64_t HRESULT
  | Call_GetCompletedValue uint64_t
  | Call_SetEventOnCompletion uint64_t HANDLE HRESULT
  | Call_WaitForSingleObject HANDLE DWORD wait_status

record world =
  completed :: uint64_t
  queue :: "(nat \<times> uint64_t) list"
  clock :: nat
  pending :: "(HANDLE \<times> uint64_t) list"
  events_set :: "HANDLE list"
  latency :: nat
  signal_hr :: HRESULT
  event_hr :: HRESULT
  calls :: "api_call list"

text \<open>
  \<open>ID3D12CommandQueue::Signal(fence, v)\<close>: on success the command is appended to the
  queue; the fence takes the value \<open>v\<close> only when the queue reaches the command.
\<close>

definition CommandQueue_Signal :: "uint64_t \<Rightarrow> world \<Rightarrow> HRESULT \<times> world" where
  "CommandQueue_Signal v w =
     (let hr = signal_hr w;
          w1 = w\<lparr>calls := calls w @ [Call_Signal v hr]\<rparr>
      in if FAILED hr then (hr, w1)
         else (hr, w1\<lparr>queue := queue w @ [(latency w, v)]\<rparr>))"

definition GetCompletedValue :: "world \<Rightarrow> uint64_t \<times> world" where
  "GetCompletedValue w =
     (completed w, w\<lparr>calls := calls w @ [Call_GetCompletedValue (completed w)]\<rparr>)"

text \<open>
  \<open>ID3D12Fence::SetEventOnCompletion(v, ev)\<close>: when the fence is already at \<open>v\<close> or
  above, the event is set at once; otherwise the registration is added to the pending
  ones.
\<close>

definition SetEventOnCompletion :: "uint64_t \<Rightarrow> HANDLE \<Rightarrow> world \<Rightarrow> HRESULT \<times> world" where
  "SetEventOnCompletion v ev w =
     (let hr = event_hr w;
          w1 = w\<lparr>calls := calls w @ [Call_SetEventOnCompletion v ev hr]\<rparr>
      in if FAILED hr then (hr, w1)
         else if v \<le> completed w then (hr, w1\<lparr>events_set := events_set w @ [ev]\<rparr>)
         else (hr, w1\<lparr>pending := pending w @ [(ev, v)]\<rparr>))"

text \<open>
  The queue reaches a signal command for the value \<open>v\<close>: the fence takes the value, and
  every pending registration for a value up to \<open>v\<close> fires, setting its event.  \<open>fire\<close>
  gives the registrations still pending and the events set.
\<close>

definition fire ::
    "uint64_t \<Rightarrow> (HANDLE \<times> uint64_t) list \<Rightarrow> HANDLE list
     \<Rightarrow> (HANDLE \<times> uint64_t) list \<times> HANDLE list" where
  "fire v pend sig =
     (filter (\<lambda>(e, r). \<not> r \<le> v) pend, sig @ map fst (filter (\<lambda>(e, r). r \<le> v) pend))"

text \<open>
  The GPU at work while the calling thread is blocked on the event \<open>ev\<close>:
  \<open>block ev budget c q pend sig\<close> starts with the fence at \<open>c\<close>, the pending commands
  \<open>q\<close>, the pending registrations \<open>pend\<close> and the set events \<open>sig\<close>.  \<open>budget\<close> is
  the milliseconds left before the timeout (\<open>None\<close>: no timeout).  The wait wakes as
  soon as \<open>ev\<close> is set, whichever registration set it, and resets it.  The result is the
  status of the wait, the milliseconds spent, and the fence, the queue, the registrations
  and the set events at that moment; \<open>None\<close> is a wait that never returns.
\<close>

fun block :: "HANDLE \<Rightarrow> nat option \<Rightarrow> uint64_t \<Rightarrow> (nat \<times> uint64_t) list
    \<Rightarrow> (HANDLE \<times> uint64_t) list \<Rightarrow> HANDLE list
    \<Rightarrow> (wait_status \<times> nat \<times> uint64_t \<times> (nat \<times> uint64_t) list
        \<times> (HANDLE \<times> uint64_t) list \<times> HANDLE list) option" where
  "block ev budget c [] pend sig =
     (if ev \<in> set sig then Some (WAIT_OBJECT_0, 0, c, [], pend, removeAll ev sig)
      else case budget of
             None \<Rightarrow> None
           | Some b \<Rightarrow> Some (WAIT_TIMEOUT, b, c, [], pend, sig))"
| "block ev budget c ((d, v) # q) pend sig =
     (if ev \<in> set sig then Some (WAIT_OBJECT_0, 0, c, (d, v) # q, pend, removeAll ev sig)
      else case budget of
             None \<Rightarrow>
               map_option (\<lambda>(st, t, rest). (st, d + t, rest))
                 (block ev None v q (fst (fire v pend sig)) (snd (fire v pend sig)))
           | Some b \<Rightarrow>
               if b < d then Some (WAIT_TIMEOUT, b, c, (d - b, v) # q, pend, sig)
               else map_option (\<lambda>(st, t, rest). (st, d + t, rest))
                      (block ev (Some (b - d)) v q
                         (fst (fire v pend sig)) (snd (fire v pend sig))))"

definition WaitForSingleObject :: "HANDLE \<Rightarrow> DWORD \<Rightarrow> world \<Rightarrow> (wait_status \<times> world) option" where
  "WaitForSingleObject ev ms w =
     (let budget = (if ms = INFINITE then None else Some (unat ms))
      in case block ev budget (completed w) (queue w) (pending w) (events_set w) of
           None \<Rightarrow> None
         | Some (st, t, c, q, pend, sig) \<Rightarrow>
             Some (st, w\<lparr>completed := c, queue := q, clock := clock w + t,
                         pending := pend, events_set := sig,
                         calls := calls w @ [Call_WaitForSingleObject ev ms st]\<rparr>))"

text \<open>
  The event \<open>ev\<close> is at rest: not set, and no registration pending on it.  This is how
  \<open>CreateEventHandle\<close> leaves the event.
\<close>

definition at_rest :: "HANDLE \<Rightarrow> world \<Rightarrow> bool" where
  "at_rest ev w = (ev \<notin> set (events_set w) \<and> ev \<notin> fst ` set (pending w))"

text \<open>
  What the cast leaves of a duration: no budget for \<open>INFINITE\<close>, the milliseconds
  otherwise.
\<close>

definition budget_of :: "milliseconds \<Rightarrow> nat option" where
  "budget_of d = (if to_DWORD d = INFINITE then None else Some (unat (to_DWORD d)))"

text \<open>
  The same wait seen from the fence alone, for the proofs: \<open>until_reached target budget
  c q\<close> lets the queue run until the fence is at \<open>target\<close> or above (\<open>None\<close>: nothing
  to wait for) or the budget is spent.
\<close>

definition reached :: "uint64_t option \<Rightarrow> uint64_t \<Rightarrow> bool" where
  "reached target c = (case target of None \<Rightarrow> False | Some v \<Rightarrow> v \<le> c)"

fun until_reached :: "uint64_t option \<Rightarrow> nat option \<Rightarrow> uint64_t \<Rightarrow> (nat \<times> uint64_t) list
    \<Rightarrow> (wait_status \<times> nat \<times> uint64_t \<times> (nat \<times> uint64_t) list) option" where
  "until_reached target budget c [] =
     (if reached target c then Some (WAIT_OBJECT_0, 0, c, [])
      else case budget of
             None \<Rightarrow> None
           | Some b \<Rightarrow> Some (WAIT_TIMEOUT, b, c, []))"
| "until_reached target budget c ((d, v) # q) =
     (if reached target c then Some (WAIT_OBJECT_0, 0, c, (d, v) # q)
      else case budget of
             None \<Rightarrow>
               map_option (\<lambda>(st, t, c', q'). (st, d + t, c', q')) (until_reached target None v q)
           | Some b \<Rightarrow>
               if b < d then Some (WAIT_TIMEOUT, b, c, (d - b, v) # q)
               else map_option (\<lambda>(st, t, c', q'). (st, d + t, c', q'))
                      (until_reached target (Some (b - d)) v q))"

text \<open>
  While the event waits for the one registration \<open>(ev, V)\<close>, or has just been set by
  it, the wait on the event is the wait for the fence to reach \<open>V\<close>.
\<close>

definition waits_for :: "HANDLE \<Rightarrow> uint64_t \<Rightarrow> uint64_t \<Rightarrow> (HANDLE \<times> uint64_t) list
    \<Rightarrow> HANDLE list \<Rightarrow> bool" where
  "waits_for ev V c pend sig =
     (if V \<le> c then ev \<in> set sig \<and> ev \<notin> fst ` set pend
      else ev \<notin> set sig \<and> (ev, V) \<in> set pend \<and> (\<forall>(e, r) \<in> set pend. e = ev \<longrightarrow> r = V))"



section \<open>Errors\<close>

datatype error = DeviceError HRESULT

text \<open>
  Modelled from the spec: \<open>ThrowIfFailed\<close> is declared in Helpers.h, which is not
  among the sources.  The spec (section 9) describes it as the source's way to fail with
  a \<open>DeviceError\<close> on every call that reports failure: it throws when the
  \<open>HRESULT\<close> is a failure and does nothing otherwise.
\<close>

definition ThrowIfFailed :: "HRESULT \<Rightarrow> error + unit" where
  "ThrowIfFailed hr = (if FAILED hr then Inl (DeviceError hr) else Inr ())"


section \<open>Signal, WaitForFenceValue and Flush\<close>

text \<open>
  \<open>Signal\<close> (main.cpp, 533-540).  \<open>fenceValue\<close> is passed by reference: the function
  gives back what it returned or threw, the consumer, and the referenced counter.  The
  increment comes before the call that may throw.
\<close>

definition Signal :: "world \<Rightarrow> uint64_t \<Rightarrow> (error + uint64_t) \<times> world \<times> uint64_t" where
  "Signal w fenceValue =
     (let fenceValue' = fenceValue + 1;
          fenceValueForSignal = fenceValue';
          (hr, w') = CommandQueue_Signal fenceValueForSignal w
      in case ThrowIfFailed hr of
           Inl e \<Rightarrow> (Inl e, w', fenceValue')
         | Inr _ \<Rightarrow> (Inr fenceValueForSignal, w', fenceValue'))"

text \<open>
  \<open>WaitForFenceValue\<close> (main.cpp, 544-553).  The result of \<open>WaitForSingleObject\<close> is
  dropped, as in the source.  \<open>None\<close> is a call that never returns.
\<close>

definition WaitForFenceValue ::
    "world \<Rightarrow> uint64_t \<Rightarrow> HANDLE \<Rightarrow> milliseconds \<Rightarrow> ((error + unit) \<times> world) option" where
  "WaitForFenceValue w fenceValue fenceEvent duration =
     (let (c, w1) = GetCompletedValue w
      in if c < fenceValue then
           (let (hr, w2) = SetEventOnCompletion fenceValue fenceEvent w1
            in case ThrowIfFailed hr of
                 Inl e \<Rightarrow> Some (Inl e, w2)
               | Inr _ \<Rightarrow>
                   (case WaitForSingleObject fenceEvent (to_DWORD duration) w2 of
                      None \<Rightarrow> None
                    | Some (st, w3) \<Rightarrow> Some (Inr (), w3)))
         else Some (Inr (), w1))"

text \<open>
  \<open>Flush\<close> (main.cpp, 558-563): \<open>Signal\<close>, then \<open>WaitForFenceValue\<close> with the default
  duration.  An exception of \<open>Signal\<close> leaves the function at once.
\<close>

definition Flush ::
    "world \<Rightarrow> uint64_t \<Rightarrow> HANDLE \<Rightarrow> ((error + unit) \<times> world \<times> uint64_t) option" where
  "Flush w fenceValue fenceEvent =
     (case Signal w fenceValue of
        (Inl e, w', fenceValue') \<Rightarrow> Some (Inl e, w', fenceValue')
      | (Inr fenceValueForSignal, w', fenceValue') \<Rightarrow>
          (case WaitForFenceValue w' fenceValueForSignal fenceEvent milliseconds_max of
             None \<Rightarrow> None
           | Some (r, w'') \<Rightarrow> Some (r, w'', fenceValue')))"


section \<open>Callers of the three operations\<close>

text \<open>
  \<open>Flush\<close> read as the spec words it, \<open>wait(signal())\<close>: the value \<open>signal\<close> returns
  is handed to \<open>wait\<close>, whose timeout is left at its default; when \<open>signal\<close> throws,
  \<open>wait\<close> is never called.  \<open>call_with\<close> is that composition for any producer of
  a value and any consumer of it.
\<close>

definition call_with ::
    "(error + 'a) \<times> world \<times> uint64_t \<Rightarrow> ('a \<Rightarrow> world \<Rightarrow> ((error + 'b) \<times> world) option)
     \<Rightarrow> ((error + 'b) \<times> world \<times> uint64_t) option" where
  "call_with produced consume =
     (case produced of
        (Inl e, w, counter) \<Rightarrow> Some (Inl e, w, counter)
      | (Inr a, w, counter) \<Rightarrow> map_option (\<lambda>(r, w'). (r, w', counter)) (consume a w))"

definition wait_of_signal ::
    "world \<Rightarrow> uint64_t \<Rightarrow> HANDLE \<Rightarrow> ((error + unit) \<times> world \<times> uint64_t) option" where
  "wait_of_signal w counter ev =
     call_with (Signal w counter) (\<lambda>v w'. WaitForFenceValue w' v ev milliseconds_max)"

text \<open>
  A caller that issues a sequence of operations on one counter.  \<open>run\<close> lists, for
  each operation it reaches, the counter after the operation and the value the operation
  returned (only \<open>Signal\<close> returns one).  The run ends with the first operation that
  throws (nothing in main.cpp catches) or that never returns.
\<close>

datatype op = Op_Signal | Op_Wait uint64_t HANDLE milliseconds | Op_Flush HANDLE

fun run :: "op list \<Rightarrow> world \<Rightarrow> uint64_t \<Rightarrow> (uint64_t \<times> uint64_t option) list" where
  "run [] w counter = []"
| "run (Op_Signal # ops) w counter =
     (case Signal w counter of
        (Inl e, w', counter') \<Rightarrow> [(counter', None)]
      | (Inr v, w', counter') \<Rightarrow> (counter', Some v) # run ops w' counter')"
| "run (Op_Wait v ev d # ops) w counter =
     (case WaitForFenceValue w v ev d of
        None \<Rightarrow> []
      | Some (Inl e, w') \<Rightarrow> [(counter, None)]
      | Some (Inr u, w') \<Rightarrow> (counter, None) # run ops w' counter)"
| "run (Op_Flush ev # ops) w counter =
     (case Flush w counter ev of
        None \<Rightarrow> [(snd (snd (Signal w counter)), None)]
      | Some (Inl e, w', counter') \<Rightarrow> [(counter', None)]
      | Some (Inr u, w', counter') \<Rightarrow> (counter', None) # run ops w' counter')"

definition returned_values :: "(uint64_t \<times> uint64_t option) list \<Rightarrow> uint64_t list" where
  "returned_values obs = List.map_filter snd obs"


section \<open>The render loop's slots\<close>

text \<open>The number of swap chain back buffers (main.cpp, 46).\<close>

definition g_NumFrames :: nat where
  "g_NumFrames = 3"

text \<open>
  Modelled from the spec: main.cpp declares \<open>g_FenceValue\<close>, \<open>g_FrameFenceValues\<close>
  (one value per frame in flight, all zero at the start) and
  \<open>g_CurrentBackBufferIndex\<close>, but the render loop that uses them is not among the
  sources.  The spec (section 4.1, algorithm) gives the loop's iteration as five steps in
  strict order: advance to the next slot, \<open>(currentSlot + 1) mod N\<close>; wait on the value
  stored for that slot; let the producer record new work; call \<open>signal()\<close>; store the
  value it returned as the slot's new target.  \<open>frame\<close> is one such iteration on the
  source's \<open>Signal\<close> and \<open>WaitForFenceValue\<close> (default timeout); it reports the slot
  it used, the value it waited for and the value it signalled.  Recording work has no
  effect on the fence and is left out.
\<close>

record tracker =
  g_FenceValue :: uint64_t
  g_FrameFenceValues :: "uint64_t list"
  g_CurrentBackBufferIndex :: nat

record frame_report =
  slot_used :: nat
  waited_for :: uint64_t
  signalled :: uint64_t

definition frame ::
    "HANDLE \<Rightarrow> world \<Rightarrow> tracker \<Rightarrow> ((error + frame_report) \<times> world \<times> tracker) option" where
  "frame ev w t =
     (let slot = (g_CurrentBackBufferIndex t + 1) mod g_NumFrames;
          t1 = t\<lparr>g_CurrentBackBufferIndex := slot\<rparr>;
          target = g_FrameFenceValues t1 ! slot
      in case WaitForFenceValue w target ev milliseconds_max of
           None \<Rightarrow> None
         | Some (Inl e, w1) \<Rightarrow> Some (Inl e, w1, t1)
         | Some (Inr u, w1) \<Rightarrow>
             (case Signal w1 (g_FenceValue t1) of
                (Inl e, w2, counter) \<Rightarrow> Some (Inl e, w2, t1\<lparr>g_FenceValue := counter\<rparr>)
              | (Inr v, w2, counter) \<Rightarrow>
                  Some (Inr \<lparr>slot_used = slot, waited_for = target, signalled = v\<rparr>, w2,
                        t1\<lparr>g_FenceValue := counter,
                           g_FrameFenceValues := (g_FrameFenceValues t1)[slot := v]\<rparr>)))"

text \<open>
  Modelled from the spec: the render loop itself, \<open>n\<close> iterations one after the other
  (section 4.1); the reports of the iterations that completed, in order.
\<close>

fun frames :: "nat \<Rightarrow> HANDLE \<Rightarrow> world \<Rightarrow> tracker \<Rightarrow> frame_report list" where
  "frames 0 ev w t = []"
| "frames (Suc n) ev w t =
     (case frame ev w t of
        None \<Rightarrow> []
      | Some (Inl e, w', t') \<Rightarrow> []
      | Some (Inr r, w', t') \<Rightarrow> r # frames n ev w' t')"



section \<open>ParseCommandLineArgs\<close>

text \<open>
  The command line is the list of wide strings \<open>CommandLineToArgvW\<close> returns, \<open>argc\<close>
  its length.  \<open>wcscmp(a, b) == 0\<close> is equality of the strings.  \<open>wcstol\<close> belongs to
  the C library and is a parameter of the model: it gives the \<open>long\<close> (32 bits on
  Windows) whose bits the assignment stores in the \<open>uint32_t\<close>.  A read of \<open>argv[i]\<close>
  with \<open>i\<close> not below \<open>argc\<close> is outside the array: the model stops there with a
  fault and the globals as they were.
\<close>

type_synonym wchar_t = "16 word"
type_synonym wstring = "wchar_t list"

definition L :: "string \<Rightarrow> wstring" where
  "L s = map (\<lambda>c. of_nat (of_char c)) s"

record settings =
  g_ClientWidth :: uint32_t
  g_ClientHeight :: uint32_t
  g_UseWARP :: bool

text \<open>The globals as main.cpp initialises them (lines 50-54).\<close>

definition initial_settings :: settings where
  "initial_settings = \<lparr>g_ClientWidth = 1024, g_ClientHeight = 768, g_UseWARP = False\<rparr>"

datatype fault = OutOfRange

text \<open>
  The body of the loop (main.cpp, 109-120) at index \<open>i < argc\<close>: three \<open>if\<close>
  statements one after the other, the first two of which advance \<open>i\<close> before they read
  the option's argument.  The result is the index and the globals after the body.
\<close>

definition width_option :: "wstring \<Rightarrow> bool" where
  "width_option a = (a = L ''-w'' \<or> a = L ''--width'')"

definition height_option :: "wstring \<Rightarrow> bool" where
  "height_option a = (a = L ''-h'' \<or> a = L ''--height'')"

definition warp_option :: "wstring \<Rightarrow> bool" where
  "warp_option a = (a = L ''-warp'' \<or> a = L ''--warp'')"

definition loop_body ::
    "(wstring \<Rightarrow> uint32_t) \<Rightarrow> wstring list \<Rightarrow> nat \<Rightarrow> settings \<Rightarrow> fault option \<times> nat \<times> settings" where
  "loop_body wcstol argv i s =
     (if width_option (argv ! i) \<and> \<not> Suc i < length argv then (Some OutOfRange, Suc i, s)
      else
        let (i1, s1) = (if width_option (argv ! i)
                        then (Suc i, s\<lparr>g_ClientWidth := wcstol (argv ! Suc i)\<rparr>)
                        else (i, s))
        in if height_option (argv ! i1) \<and> \<not> Suc i1 < length argv then (Some OutOfRange, Suc i1, s1)
           else
             let (i2, s2) = (if height_option (argv ! i1)
                             then (Suc i1, s1\<lparr>g_ClientWidth := wcstol (argv ! Suc i1)\<rparr>)
                             else (i1, s1))
             in (None, i2, if warp_option (argv ! i2) then s2\<lparr>g_UseWARP := True\<rparr> else s2))"

function parse_loop ::
    "(wstring \<Rightarrow> uint32_t) \<Rightarrow> wstring list \<Rightarrow> nat \<Rightarrow> settings \<Rightarrow> fault option \<times> settings" where
  "parse_loop wcstol argv i s =
     (if i < length argv then
        (case loop_body wcstol argv i s of
           (Some f, i', s') \<Rightarrow> (Some f, s')
         | (None, i', s') \<Rightarrow> parse_loop wcstol argv (Suc i') s')
      else (None, s))"
  by pat_completeness auto
termination
  by (relation "measure (\<lambda>(wcstol, argv, i, s). length argv - i)")
     (auto simp: loop_body_def Let_def split: if_splits)

declare parse_loop.simps [simp del]

definition ParseCommandLineArgs ::
    "(wstring \<Rightarrow> uint32_t) \<Rightarrow> wstring list \<Rightarrow> settings \<Rightarrow> fault option \<times> settings" where
  "ParseCommandLineArgs wcstol argv s = parse_loop wcstol argv 0 s"

text \<open>
  A \<open>wcstol\<close> for base 10 to run the model with: white space, an optional sign, then
  decimal digits, the value kept within the range of \<open>long\<close>.
\<close>

definition iswspace :: "wchar_t \<Rightarrow> bool" where
  "iswspace c = (c = 0x20 \<or> (0x09 \<le> c \<and> c \<le> 0x0D))"

fun digits_value :: "int \<Rightarrow> wstring \<Rightarrow> int" where
  "digits_value acc [] = acc"
| "digits_value acc (c # cs) =
     (if 0x30 \<le> c \<and> c \<le> 0x39 then digits_value (10 * acc + (uint c - 48)) cs else acc)"

definition wcstol_base10 :: "wstring \<Rightarrow> uint32_t" where
  "wcstol_base10 s =
     (let s1 = dropWhile iswspace s;
          negative = (s1 \<noteq> [] \<and> hd s1 = 0x2D);
          s2 = (if s1 \<noteq> [] \<and> (hd s1 = 0x2D \<or> hd s1 = 0x2B) then tl s1 else s1);
          n = digits_value 0 s2
      in of_int (if negative then max (- n) (- 2147483648) else min n 2147483647))"


section \<open>Consumers to run the model on\<close>

text \<open>A working device with nothing to do, and one with two signals in flight.\<close>

definition idle_world :: world where
  "idle_world = \<lparr>completed = 0, queue = [], clock = 0, pending = [], events_set = [],
                  latency = 5, signal_hr = 0, event_hr = 0, calls = []\<rparr>"

definition busy_world :: world where
  "busy_world = idle_world\<lparr>queue := [(5, 1), (5, 2)]\<rparr>"


text \<open>A removed device: every call fails with \<open>DXGI_ERROR_DEVICE_REMOVED\<close>.\<close>

definition lost_world :: world where
  "lost_world = idle_world\<lparr>signal_hr := 0x887A0005, event_hr := 0x887A0005\<rparr>"


text \<open>
  The consumer after one \<open>Flush\<close> of the idle one, and a consumer whose fence stands
  at \<open>2^64 - 2\<close> with the signal for \<open>2^64 - 1\<close> pending.
\<close>

definition flushed_once :: world where
  "flushed_once = idle_world\<lparr>completed := 1, clock := 5,
     calls := [Call_Signal 1 0, Call_GetCompletedValue 0, Call_SetEventOnCompletion 1 7 0,
               Call_WaitForSingleObject 7 INFINITE WAIT_OBJECT_0]\<rparr>"

definition wrapping_world :: world where
  "wrapping_world = idle_world\<lparr>completed := 0xFFFFFFFFFFFFFFFE,
     queue := [(5, 0xFFFFFFFFFFFFFFFF)]\<rparr>"

text \<open>
  Three signals in flight, and what a wait for 2 on the event 7 that times out after 7 ms
  leaves of them: the fence at 1, the signal for 2 still 3 ms away, and the registration
  for 2 pending on the event.
\<close>

definition three_in_flight :: world where
  "three_in_flight = idle_world\<lparr>queue := [(5, 1), (5, 2), (5, 3)]\<rparr>"

definition stale_world :: world where
  "stale_world = idle_world\<lparr>completed := 1, queue := [(3, 2), (5, 3)], clock := 7,
     pending := [(7, 2)],
     calls := [Call_GetCompletedValue 0, Call_SetEventOnCompletion 2 7 0,
               Call_WaitForSingleObject 7 7 WAIT_TIMEOUT]\<rparr>"


section \<open>The wait for a fence value\<close>

lemma until_None_reached:
  "until_reached target None c q = Some (st, t, c', q') \<Longrightarrow> st = WAIT_OBJECT_0 \<and> reached target c'"
  by (induction q arbitrary: c t) (auto split: if_splits)

lemma until_Some_total: "until_reached target (Some b) c q \<noteq> None"
proof (induction q arbitrary: c b)
  case Nil
  show ?case by simp
next
  case (Cons e q)
  obtain d v where e: "e = (d, v)" by (cases e)
  from Cons.IH [of "b - d" v] show ?case
    unfolding e by (cases "until_reached target (Some (b - d)) v q") auto
qed

lemma until_Some_result:
  "until_reached target (Some b) c q = Some (st, t, c', q') \<Longrightarrow>
     t \<le> b \<and> (if st = WAIT_OBJECT_0 then reached target c' else t = b \<and> \<not> reached target c')"
proof (induction q arbitrary: c b t)
  case Nil
  then show ?case by (auto split: if_splits)
next
  case (Cons e q)
  obtain d v where e: "e = (d, v)" by (cases e)
  show ?case
  proof (cases "reached target c")
    case True
    with Cons.prems e show ?thesis by auto
  next
    case nr: False
    show ?thesis
    proof (cases "b < d")
      case True
      with Cons.prems e nr show ?thesis by auto
    next
      case False
      with Cons.prems e nr obtain t' where
        r: "until_reached target (Some (b - d)) v q = Some (st, t', c', q')" and t: "t = d + t'"
        by auto
      from Cons.IH [OF r] False t show ?thesis by (auto split: if_splits)
    qed
  qed
qed



lemma until_value:
  "until_reached target budget c q = Some (st, t, c', q') \<Longrightarrow> c' = c \<or> c' \<in> snd ` set q"
proof (induction q arbitrary: c budget t)
  case Nil
  then show ?case by (auto split: if_splits option.splits)
next
  case (Cons e q)
  obtain d v where e: "e = (d, v)" by (cases e)
  show ?case
  proof (cases "reached target c")
    case True
    with Cons.prems e show ?thesis by auto
  next
    case nr: False
    show ?thesis
    proof (cases budget)
      case None
      with Cons.prems e nr obtain t' where
        "until_reached target None v q = Some (st, t', c', q')" by auto
      from Cons.IH [OF this] e show ?thesis by auto
    next
      case (Some b)
      show ?thesis
      proof (cases "b < d")
        case True
        with Cons.prems e nr Some show ?thesis by auto
      next
        case False
        with Cons.prems e nr Some obtain t' where
          "until_reached target (Some (b - d)) v q = Some (st, t', c', q')" by auto
        from Cons.IH [OF this] e show ?thesis by auto
      qed
    qed
  qed
qed

lemma until_stalled:
  assumes "\<not> reached target c" and "\<forall>v \<in> snd ` set q. \<not> reached target v"
  shows "\<exists>c' q'. until_reached target (Some b) c q = Some (WAIT_TIMEOUT, b, c', q') \<and> \<not> reached target c'"
proof -
  from until_Some_total [of target b c q] obtain st t c' q' where
    r: "until_reached target (Some b) c q = Some (st, t, c', q')"
    by (cases "until_reached target (Some b) c q") auto
  from until_value [OF r] assms have nr: "\<not> reached target c'" by auto
  from until_Some_result [OF r] nr have "st = WAIT_TIMEOUT" and "t = b"
    by (auto split: if_splits intro: wait_status.exhaust)
  with r nr show ?thesis by simp
qed


section \<open>The blocked thread\<close>

lemma block_None_status:
  "block ev None c q pend sig = Some (st, rest) \<Longrightarrow> st = WAIT_OBJECT_0"
proof (induction q arbitrary: c pend sig rest)
  case Nil
  then show ?case by (auto split: if_splits)
next
  case (Cons e q)
  obtain d v where e: "e = (d, v)" by (cases e)
  show ?case
  proof (cases "ev \<in> set sig")
    case True
    with Cons.prems e show ?thesis by simp
  next
    case False
    with Cons.prems e obtain rest' where
      "block ev None v q (fst (fire v pend sig)) (snd (fire v pend sig)) = Some (st, rest')"
      by auto
    then show ?thesis by (rule Cons.IH)
  qed
qed

lemma block_Some_total: "block ev (Some b) c q pend sig \<noteq> None"
proof (induction q arbitrary: c b pend sig)
  case Nil
  show ?case by simp
next
  case (Cons e q)
  obtain d v where e: "e = (d, v)" by (cases e)
  from Cons.IH [of "b - d" v "fst (fire v pend sig)" "snd (fire v pend sig)"]
  show ?case
    unfolding e
    by (cases "block ev (Some (b - d)) v q (fst (fire v pend sig)) (snd (fire v pend sig))")
      auto
qed

lemma block_Some_time:
  "block ev (Some b) c q pend sig = Some (st, t, rest) \<Longrightarrow> t \<le> b"
proof (induction q arbitrary: c b pend sig t rest)
  case Nil
  then show ?case by (auto split: if_splits)
next
  case (Cons e q)
  obtain d v where e: "e = (d, v)" by (cases e)
  show ?case
  proof (cases "ev \<in> set sig \<or> b < d")
    case True
    with Cons.prems e show ?thesis by (auto split: if_splits)
  next
    case False
    with Cons.prems e obtain t' rest' where
      r: "block ev (Some (b - d)) v q (fst (fire v pend sig)) (snd (fire v pend sig))
            = Some (st, t', rest')"
      and t: "t = d + t'"
      by auto
    from False have "d \<le> b" by simp
    with Cons.IH [OF r] t show ?thesis by simp
  qed
qed

lemma waits_for_fire:
  assumes "waits_for ev V c pend sig" and "\<not> V \<le> c"
  shows "waits_for ev V v (fst (fire v pend sig)) (snd (fire v pend sig))"
proof (cases "V \<le> v")
  case True
  with assms show ?thesis
    by (force simp: waits_for_def fire_def)
next
  case False
  with assms show ?thesis
    by (auto simp: waits_for_def fire_def)
qed

lemma block_sim:
  "waits_for ev V c pend sig \<Longrightarrow>
     map_option (\<lambda>(st, t, c', q', rest). (st, t, c', q')) (block ev budget c q pend sig)
       = until_reached (Some V) budget c q"
proof (induction q arbitrary: c budget pend sig)
  case Nil
  then show ?case by (auto simp: waits_for_def reached_def split: option.splits if_splits)
next
  case (Cons e q)
  obtain d v where e: "e = (d, v)" by (cases e)
  show ?case
  proof (cases "V \<le> c")
    case True
    with Cons.prems e show ?thesis by (simp add: waits_for_def reached_def)
  next
    case False
    with Cons.prems have ns: "ev \<notin> set sig" by (simp add: waits_for_def)
    note w' = waits_for_fire [OF Cons.prems False, of v]
    have step: "map_option (\<lambda>(st, t, c', q', rest). (st, t, c', q'))
            (map_option (\<lambda>(st, t, rest). (st, d + t, rest))
               (block ev bud v q (fst (fire v pend sig)) (snd (fire v pend sig))))
          = map_option (\<lambda>(st, t, c', q'). (st, d + t, c', q'))
              (until_reached (Some V) bud v q)" for bud
      unfolding Cons.IH [OF w', of bud, symmetric]
      by (cases "block ev bud v q (fst (fire v pend sig)) (snd (fire v pend sig))") auto
    from False ns e show ?thesis
      by (cases budget) (simp_all add: reached_def step)
  qed
qed

lemma block_wake:
  "waits_for ev V c pend sig \<Longrightarrow>
   block ev budget c q pend sig = Some (WAIT_OBJECT_0, t, c', q', pend', sig') \<Longrightarrow>
     ev \<notin> set sig' \<and> ev \<notin> fst ` set pend'"
proof (induction q arbitrary: c budget pend sig t)
  case Nil
  then show ?case by (auto simp: waits_for_def split: option.splits if_splits)
next
  case (Cons e q)
  obtain d v where e: "e = (d, v)" by (cases e)
  show ?case
  proof (cases "V \<le> c")
    case True
    with Cons.prems e show ?thesis by (auto simp: waits_for_def)
  next
    case False
    with Cons.prems have ns: "ev \<notin> set sig" by (simp add: waits_for_def)
    note w' = waits_for_fire [OF Cons.prems(1) False, of v]
    from Cons.prems(2) ns e obtain bud t' where
      "block ev bud v q (fst (fire v pend sig)) (snd (fire v pend sig))
         = Some (WAIT_OBJECT_0, t', c', q', pend', sig')"
      by (cases budget) (auto split: if_splits)
    from Cons.IH [OF w' this] show ?thesis .
  qed
qed

lemma block_value:
  "block ev budget c q pend sig = Some (st, t, c', rest) \<Longrightarrow> c' = c \<or> c' \<in> snd ` set q"
proof (induction q arbitrary: c budget pend sig t)
  case Nil
  then show ?case by (auto split: if_splits option.splits)
next
  case (Cons e q)
  obtain d v where e: "e = (d, v)" by (cases e)
  show ?case
  proof (cases "ev \<in> set sig")
    case True
    with Cons.prems e show ?thesis by auto
  next
    case ns: False
    show ?thesis
    proof (cases "\<exists>b. budget = Some b \<and> b < d")
      case True
      with Cons.prems e ns show ?thesis by auto
    next
      case False
      with Cons.prems e ns obtain bud t' where
        "block ev bud v q (fst (fire v pend sig)) (snd (fire v pend sig))
           = Some (st, t', c', rest)"
        by (cases budget) (auto split: if_splits)
      from Cons.IH [OF this] e show ?thesis by auto
    qed
  qed
qed



section \<open>Casts and increments\<close>

lemma to_DWORD_max: "to_DWORD milliseconds_max = INFINITE"
  by (simp add: to_DWORD_def milliseconds_max_def INFINITE_def)

lemma to_DWORD_small:
  "unat d < 2 ^ 32 - 1 \<Longrightarrow> unat (to_DWORD d) = unat d \<and> to_DWORD d \<noteq> INFINITE"
proof -
  assume a: "unat d < 2 ^ 32 - 1"
  have "unat (to_DWORD d) = unat d mod 2 ^ 32"
    by (simp add: to_DWORD_def unsigned_ucast_eq take_bit_eq_mod)
  with a have u: "unat (to_DWORD d) = unat d" by simp
  have "unat INFINITE = 2 ^ 32 - 1" by (simp add: INFINITE_def)
  with u a have "to_DWORD d \<noteq> INFINITE" by auto
  with u show ?thesis by simp
qed

lemma unat_Suc_word:
  fixes c :: uint64_t
  assumes "unat c + 1 < 2 ^ 64"
  shows "unat (c + 1) = unat c + 1" and "c < c + 1" and "c \<le> c + 1"
proof -
  from assms show u: "unat (c + 1) = unat c + 1"
    by (simp add: unat_word_ariths)
  then show "c < c + 1" by (simp add: word_less_nat_alt)
  then show "c \<le> c + 1" by simp
qed

lemma unat_plus_small:
  fixes c :: uint64_t
  assumes "unat c + 1 + k < 2 ^ 64"
  shows "unat (c + 1 + of_nat k) = unat c + 1 + k"
proof -
  from assms have k: "k mod 2 ^ 64 = k" by simp
  have "unat (c + 1 + of_nat k) = (unat c + 1 + k) mod 2 ^ 64"
    using k by (simp add: unat_word_ariths unat_of_nat mod_simps)
  also from assms have "\<dots> = unat c + 1 + k" by simp
  finally show ?thesis .
qed


section \<open>The paths of Signal, WaitForFenceValue and Flush\<close>

lemma Signal_failed:
  "FAILED (signal_hr w) \<Longrightarrow>
     Signal w fenceValue =
       (Inl (DeviceError (signal_hr w)),
        w\<lparr>calls := calls w @ [Call_Signal (fenceValue + 1) (signal_hr w)]\<rparr>, fenceValue + 1)"
  by (simp add: Signal_def CommandQueue_Signal_def ThrowIfFailed_def Let_def)

lemma Signal_ok:
  "\<not> FAILED (signal_hr w) \<Longrightarrow>
     Signal w fenceValue =
       (Inr (fenceValue + 1),
        w\<lparr>calls := calls w @ [Call_Signal (fenceValue + 1) (signal_hr w)],
          queue := queue w @ [(latency w, fenceValue + 1)]\<rparr>, fenceValue + 1)"
  by (simp add: Signal_def CommandQueue_Signal_def ThrowIfFailed_def Let_def)

lemma Signal_counter: "snd (snd (Signal w counter)) = counter + 1"
  by (cases "FAILED (signal_hr w)") (simp_all add: Signal_failed Signal_ok)

lemma WaitForFenceValue_fast:
  "fenceValue \<le> completed w \<Longrightarrow>
     WaitForFenceValue w fenceValue ev d =
       Some (Inr (), w\<lparr>calls := calls w @ [Call_GetCompletedValue (completed w)]\<rparr>)"
  by (simp add: WaitForFenceValue_def GetCompletedValue_def not_less [symmetric])

lemma WaitForFenceValue_throw:
  "completed w < fenceValue \<Longrightarrow> FAILED (event_hr w) \<Longrightarrow>
     WaitForFenceValue w fenceValue ev d =
       Some (Inl (DeviceError (event_hr w)),
             w\<lparr>calls := calls w @ [Call_GetCompletedValue (completed w),
                                     Call_SetEventOnCompletion fenceValue ev (event_hr w)]\<rparr>)"
  by (simp add: WaitForFenceValue_def GetCompletedValue_def SetEventOnCompletion_def
      ThrowIfFailed_def Let_def)

lemma WaitForFenceValue_slow:
  "completed w < fenceValue \<Longrightarrow> \<not> FAILED (event_hr w) \<Longrightarrow>
     WaitForFenceValue w fenceValue ev d =
       (case block ev (budget_of d) (completed w) (queue w)
               (pending w @ [(ev, fenceValue)]) (events_set w) of
          None \<Rightarrow> None
        | Some (st, t, c, q, pend, sig) \<Rightarrow>
            Some (Inr (), w\<lparr>completed := c, queue := q, clock := clock w + t,
                    pending := pend, events_set := sig,
                    calls := calls w @ [Call_GetCompletedValue (completed w),
                                        Call_SetEventOnCompletion fenceValue ev (event_hr w),
                                        Call_WaitForSingleObject ev (to_DWORD d) st]\<rparr>))"
  by (simp add: WaitForFenceValue_def GetCompletedValue_def SetEventOnCompletion_def
      ThrowIfFailed_def WaitForSingleObject_def budget_of_def Let_def not_le [symmetric]
      split: option.splits)

lemma at_rest_waits_for:
  "at_rest ev w \<Longrightarrow> completed w < fenceValue \<Longrightarrow>
     waits_for ev fenceValue (completed w) (pending w @ [(ev, fenceValue)]) (events_set w)"
  by (force simp: at_rest_def waits_for_def)

lemma WaitForFenceValue_rest_None:
  assumes "completed w < fenceValue" and "\<not> FAILED (event_hr w)" and "at_rest ev w"
  shows "(WaitForFenceValue w fenceValue ev d = None) =
         (until_reached (Some fenceValue) (budget_of d) (completed w) (queue w) = None)"
proof -
  note sim = block_sim [OF at_rest_waits_for [OF assms(3) assms(1)], of "budget_of d" "queue w"]
  show ?thesis
    unfolding WaitForFenceValue_slow [OF assms(1) assms(2)] sim [symmetric]
    by (auto split: option.splits)
qed

lemma WaitForFenceValue_rest_Some:
  assumes "completed w < fenceValue" and "\<not> FAILED (event_hr w)" and "at_rest ev w"
    and "WaitForFenceValue w fenceValue ev d = Some (r, w')"
  shows "\<exists>st t. until_reached (Some fenceValue) (budget_of d) (completed w) (queue w)
              = Some (st, t, completed w', queue w')
           \<and> r = Inr () \<and> clock w' = clock w + t
           \<and> calls w' = calls w @ [Call_GetCompletedValue (completed w),
                 Call_SetEventOnCompletion fenceValue ev (event_hr w),
                 Call_WaitForSingleObject ev (to_DWORD d) st]
           \<and> latency w' = latency w \<and> signal_hr w' = signal_hr w \<and> event_hr w' = event_hr w
           \<and> (st = WAIT_OBJECT_0 \<longrightarrow> at_rest ev w')"
proof -
  note wf = at_rest_waits_for [OF assms(3) assms(1)]
  from assms(4) obtain st t c q pend sig where
    b: "block ev (budget_of d) (completed w) (queue w)
          (pending w @ [(ev, fenceValue)]) (events_set w) = Some (st, t, c, q, pend, sig)"
    and r: "r = Inr ()"
    and w': "w' = w\<lparr>completed := c, queue := q, clock := clock w + t,
                    pending := pend, events_set := sig,
                    calls := calls w @ [Call_GetCompletedValue (completed w),
                                        Call_SetEventOnCompletion fenceValue ev (event_hr w),
                                        Call_WaitForSingleObject ev (to_DWORD d) st]\<rparr>"
    by (auto simp: WaitForFenceValue_slow [OF assms(1) assms(2)] split: option.splits)
  from block_sim [OF wf, of "budget_of d" "queue w"] b
  have u: "until_reached (Some fenceValue) (budget_of d) (completed w) (queue w)
             = Some (st, t, c, q)"
    by simp
  have rest: "at_rest ev w'" if "st = WAIT_OBJECT_0"
    using block_wake [OF wf b [unfolded that]] w' by (simp add: at_rest_def)
  from u r w' rest show ?thesis by simp
qed

lemma WaitForFenceValue_rest_wake:
  assumes "completed w < fenceValue" and "\<not> FAILED (event_hr w)" and "at_rest ev w"
    and "until_reached (Some fenceValue) (budget_of d) (completed w) (queue w) \<noteq> None"
  shows "\<exists>w'. WaitForFenceValue w fenceValue ev d = Some (Inr (), w')"
proof -
  from assms(4) WaitForFenceValue_rest_None [OF assms(1-3), of d]
  obtain r w' where s: "WaitForFenceValue w fenceValue ev d = Some (r, w')"
    by (cases "WaitForFenceValue w fenceValue ev d") auto
  from WaitForFenceValue_rest_Some [OF assms(1-3) s] s show ?thesis by auto
qed

lemma budget_of_max: "budget_of milliseconds_max = None"
  by (simp add: budget_of_def to_DWORD_max)

lemma budget_of_small: "unat d < 2 ^ 32 - 1 \<Longrightarrow> budget_of d = Some (unat d)"
  using to_DWORD_small [of d] by (simp add: budget_of_def)

lemma at_rest_calls [simp]: "at_rest ev (w\<lparr>calls := cs\<rparr>) = at_rest ev w"
  by (simp add: at_rest_def)

lemma at_rest_queue [simp]: "at_rest ev (w\<lparr>queue := q\<rparr>) = at_rest ev w"
  by (simp add: at_rest_def)

lemma wait_INFINITE_reached:
  assumes "WaitForFenceValue w fenceValue ev milliseconds_max = Some (Inr (), w')"
    and "at_rest ev w"
  shows "fenceValue \<le> completed w' \<and> at_rest ev w'"
proof (cases "fenceValue \<le> completed w")
  case True
  with assms show ?thesis by (auto simp: WaitForFenceValue_fast)
next
  case False
  then have lt: "completed w < fenceValue" by simp
  show ?thesis
  proof (cases "FAILED (event_hr w)")
    case True
    with assms show ?thesis by (simp add: WaitForFenceValue_throw [OF lt])
  next
    case ok: False
    from WaitForFenceValue_rest_Some [OF lt ok assms(2) assms(1)] obtain st t where
      u: "until_reached (Some fenceValue) None (completed w) (queue w)
            = Some (st, t, completed w', queue w')"
      and rest: "st = WAIT_OBJECT_0 \<longrightarrow> at_rest ev w'"
      by (auto simp: budget_of_max)
    from until_None_reached [OF u] rest show ?thesis by (simp add: reached_def)
  qed
qed


lemma wait_calls_extend:
  assumes "WaitForFenceValue w fenceValue ev d = Some (r, w')"
  shows "\<exists>new. calls w' = calls w @ new"
proof (cases "fenceValue \<le> completed w")
  case True
  with assms show ?thesis by (auto simp: WaitForFenceValue_fast)
next
  case False
  then have lt: "completed w < fenceValue" by simp
  show ?thesis
  proof (cases "FAILED (event_hr w)")
    case True
    with assms show ?thesis by (auto simp: WaitForFenceValue_throw [OF lt])
  next
    case False
    with assms show ?thesis
      by (auto simp: WaitForFenceValue_slow [OF lt] split: option.splits)
  qed
qed

lemma wait_registers:
  assumes "completed w < fenceValue" and "WaitForFenceValue w fenceValue ev d = Some (r, w')"
  shows "\<exists>rest. calls w' = calls w @ [Call_GetCompletedValue (completed w),
                   Call_SetEventOnCompletion fenceValue ev (event_hr w)] @ rest"
proof (cases "FAILED (event_hr w)")
  case True
  with assms show ?thesis by (auto simp: WaitForFenceValue_throw)
next
  case False
  with assms show ?thesis
    by (auto simp: WaitForFenceValue_slow split: option.splits)
qed

lemma wait_finite_returns:
  assumes "completed w < fenceValue" and "\<not> FAILED (event_hr w)" and "unat d < 2 ^ 32 - 1"
  shows "\<exists>w'. WaitForFenceValue w fenceValue ev d = Some (Inr (), w')
           \<and> clock w \<le> clock w' \<and> clock w' \<le> clock w + unat d"
proof -
  let ?b = "block ev (Some (unat d)) (completed w) (queue w)
              (pending w @ [(ev, fenceValue)]) (events_set w)"
  from block_Some_total [of ev "unat d" "completed w" "queue w"
      "pending w @ [(ev, fenceValue)]" "events_set w"]
  obtain st t c q pend sig where b: "?b = Some (st, t, c, q, pend, sig)"
    by (cases ?b) auto
  from block_Some_time [OF b] have "t \<le> unat d" .
  with b show ?thesis
    by (simp add: WaitForFenceValue_slow [OF assms(1) assms(2)] budget_of_small [OF assms(3)])
qed

lemma Flush_counter:
  "Flush w counter ev = Some (r, w', counter') \<Longrightarrow> counter' = counter + 1"
  by (cases "FAILED (signal_hr w)")
    (auto simp: Flush_def Signal_failed Signal_ok split: option.splits)


section \<open>Running the model\<close>

lemmas eval_base = busy_world_def idle_world_def WaitForFenceValue_def GetCompletedValue_def
  SetEventOnCompletion_def ThrowIfFailed_def WaitForSingleObject_def FAILED_def fire_def
  INFINITE_def Let_def word_le_nat_alt word_less_nat_alt Signal_def CommandQueue_Signal_def
  Flush_def at_rest_def

lemmas eval_worlds = lost_world_def flushed_once_def wrapping_world_def three_in_flight_def
  stale_world_def

lemmas eval_defs = eval_base eval_worlds to_DWORD_def

lemmas eval_default = eval_base eval_worlds to_DWORD_max

lemmas eval_run = eval_default returned_values_def


section \<open>Waiting for a fence value\<close>





section \<open>The counter\<close>

lemma run_sorted:
  "unat counter + length ops < 2 ^ 64 \<Longrightarrow> sorted (counter # map fst (run ops w counter))"
proof (induction ops arbitrary: w counter)
  case Nil
  show ?case by simp
next
  case (Cons x ops)
  from Cons.prems have one: "unat counter + 1 < 2 ^ 64" by simp
  note suc = unat_Suc_word [OF one]
  have step: "sorted (counter # (counter + 1) # map fst (run ops w' (counter + 1)))" for w'
  proof -
    from Cons.prems suc(1) have "unat (counter + 1) + length ops < 2 ^ 64" by simp
    from Cons.IH [OF this, of w'] suc(3) show ?thesis by (auto intro: order_trans)
  qed
  have stay: "sorted (counter # counter # map fst (run ops w' counter))" for w'
  proof -
    from Cons.prems have "unat counter + length ops < 2 ^ 64" by simp
    from Cons.IH [OF this, of w'] show ?thesis by simp
  qed
  show ?case
  proof (cases x)
    case Op_Signal
    show ?thesis
    proof (cases "FAILED (signal_hr w)")
      case True
      with Op_Signal suc(3) show ?thesis by (simp add: Signal_failed)
    next
      case False
      with Op_Signal step show ?thesis by (simp add: Signal_ok)
    qed
  next
    case (Op_Wait v ev d)
    show ?thesis
    proof (cases "WaitForFenceValue w v ev d")
      case None
      with Op_Wait show ?thesis by simp
    next
      case (Some res)
      obtain r w' where res: "res = (r, w')" by (cases res)
      from stay [of w'] have "sorted (counter # map fst ((counter, None) # run ops w' counter))"
        by simp
      with Some res Op_Wait show ?thesis
      proof (cases r)
        case (Inl e)
        with Some res Op_Wait show ?thesis by simp
      next
        case (Inr u)
        with Some res Op_Wait \<open>sorted (counter # map fst ((counter, None) # run ops w' counter))\<close>
        show ?thesis by (simp del: sorted_wrt.simps)
      qed
    qed
  next
    case (Op_Flush ev)
    show ?thesis
    proof (cases "Flush w counter ev")
      case None
      with Op_Flush suc(3) show ?thesis by (simp add: Signal_counter)
    next
      case (Some res)
      obtain r w' counter' where res: "res = (r, w', counter')" by (cases res)
      from Some res Flush_counter have c': "counter' = counter + 1" by blast
      with Some res Op_Flush step suc(3) show ?thesis by (cases r) simp_all
    qed
  qed
qed

lemma run_signals:
  "\<not> FAILED (signal_hr w) \<Longrightarrow>
     returned_values (run (replicate n Op_Signal) w counter) =
       map (\<lambda>k. counter + 1 + of_nat k) [0..<n]"
proof (induction n arbitrary: w counter)
  case 0
  show ?case by (simp add: returned_values_def map_filter_simps)
next
  case (Suc n)
  let ?w1 = "w\<lparr>calls := calls w @ [Call_Signal (counter + 1) (signal_hr w)],
          queue := queue w @ [(latency w, counter + 1)]\<rparr>"
  from Suc.prems have ok: "\<not> FAILED (signal_hr ?w1)" by simp
  have "returned_values (run (replicate (Suc n) Op_Signal) w counter) =
        (counter + 1) # returned_values (run (replicate n Op_Signal) ?w1 (counter + 1))"
    by (simp add: Signal_ok [OF Suc.prems] returned_values_def map_filter_simps)
  also have "\<dots> = (counter + 1) # map (\<lambda>k. counter + 1 + 1 + of_nat k) [0..<n]"
    by (simp only: Suc.IH [OF ok])
  also have "\<dots> = map (\<lambda>k. counter + 1 + of_nat k) [0..<Suc n]"
    by (simp add: upt_rec [of 0 "Suc n"] map_Suc_upt [symmetric] del: upt_Suc)
  finally show ?case .
qed

lemma signals_strict:
  fixes c :: uint64_t
  assumes "unat c + n < 2 ^ 64"
  shows "sorted_wrt (<) (map (\<lambda>k. c + 1 + of_nat k) [0..<n])"
proof -
  have "sorted_wrt (\<lambda>i j. c + 1 + of_nat i < c + 1 + of_nat j) [0..<n]"
  proof (rule sorted_wrt_mono_rel [of _ "(<)"])
    fix i j assume "i \<in> set [0..<n]" "j \<in> set [0..<n]" "i < j"
    with assms have "unat c + 1 + i < 2 ^ 64" "unat c + 1 + j < 2 ^ 64" by simp_all
    with \<open>i < j\<close> show "c + 1 + of_nat i < c + 1 + of_nat j"
      by (simp add: word_less_nat_alt unat_plus_small)
  next
    show "sorted_wrt (<) [0..<n]" by simp
  qed
  then show ?thesis by (simp add: sorted_wrt_map)
qed

lemma run_signals_failed:
  "FAILED (signal_hr w) \<Longrightarrow> returned_values (run (replicate n Op_Signal) w counter) = []"
  by (cases n) (simp_all add: Signal_failed returned_values_def map_filter_simps)

text \<open>
  C2, as amended.  Every call of \<open>Signal\<close> adds one to the 64-bit counter, modulo
  \<open>2^64\<close>, and, when the enqueue succeeds, returns the new counter; \<open>n\<close> calls in a
  row return \<open>counter + 1, \<dots>, counter + n\<close>.  As long as the counter does not pass
  \<open>2^64 - 1\<close>, these values are strictly increasing, and the counter never decreases
  along any sequence of \<open>Signal\<close>, \<open>WaitForFenceValue\<close> and \<open>Flush\<close>.
\<close>

theorem counter_increments:
  "snd (snd (Signal w counter)) = counter + 1
   \<and> (\<not> FAILED (signal_hr w) \<longrightarrow>
        fst (Signal w counter) = Inr (counter + 1)
        \<and> returned_values (run (replicate n Op_Signal) w counter) =
            map (\<lambda>k. counter + 1 + of_nat k) [0..<n])
   \<and> (unat counter + n < 2 ^ 64 \<longrightarrow>
        sorted_wrt (<) (returned_values (run (replicate n Op_Signal) w counter)))
   \<and> (unat counter + length ops < 2 ^ 64 \<longrightarrow>
        sorted (counter # map fst (run ops w counter)))"
proof -
  have a: "snd (snd (Signal w counter)) = counter + 1" by (rule Signal_counter)
  have b: "fst (Signal w counter) = Inr (counter + 1)
        \<and> returned_values (run (replicate n Op_Signal) w counter) =
            map (\<lambda>k. counter + 1 + of_nat k) [0..<n]" if "\<not> FAILED (signal_hr w)"
    using that by (simp add: Signal_ok run_signals)
  have c: "sorted_wrt (<) (returned_values (run (replicate n Op_Signal) w counter))"
    if "unat counter + n < 2 ^ 64"
  proof (cases "FAILED (signal_hr w)")
    case True
    then show ?thesis by (simp add: run_signals_failed)
  next
    case False
    from signals_strict [OF that] show ?thesis by (simp only: run_signals [OF False])
  qed
  have d: "sorted (counter # map fst (run ops w counter))"
    if "unat counter + length ops < 2 ^ 64"
    using that by (rule run_sorted)
  from a b c d show ?thesis by blast
qed

theorem counter_increments_witness:
  "\<not> FAILED (signal_hr idle_world)
   \<and> unat (0 :: uint64_t) + 3 < 2 ^ 64
   \<and> unat (0 :: uint64_t) + length [Op_Signal, Op_Wait 1 7 milliseconds_max, Op_Flush 7] < 2 ^ 64
   \<and> Signal idle_world 0 =
       (Inr 1, idle_world\<lparr>calls := [Call_Signal 1 0], queue := [(5, 1)]\<rparr>, 1)
   \<and> returned_values (run (replicate 3 Op_Signal) idle_world 0) = [1, 2, 3]
   \<and> map fst (run [Op_Signal, Op_Wait 1 7 milliseconds_max, Op_Flush 7] idle_world 0) = [1, 1, 2]"
  using counter_increments [of idle_world 0 3 "[Op_Signal, Op_Wait 1 7 milliseconds_max, Op_Flush 7]"]
  by (simp add: eval_run numeral_3_eq_3)

text \<open>
  C2 as stated fails where the counter wraps around: at \<open>2^64 - 1\<close>, \<open>Signal\<close>
  returns 0 and leaves the counter at 0; two calls from \<open>2^64 - 2\<close> return
  \<open>2^64 - 1\<close> and then 0.
\<close>

theorem Signal_wraps_around:
  "Signal idle_world 0xFFFFFFFFFFFFFFFF =
     (Inr 0, idle_world\<lparr>calls := [Call_Signal 0 0], queue := [(5, 0)]\<rparr>, 0)
   \<and> (0 :: uint64_t) < 0xFFFFFFFFFFFFFFFF
   \<and> returned_values (run [Op_Signal, Op_Signal] idle_world 0xFFFFFFFFFFFFFFFE) =
       [0xFFFFFFFFFFFFFFFF, 0]
   \<and> map fst (run [Op_Signal, Op_Signal] idle_world 0xFFFFFFFFFFFFFFFE) =
       [0xFFFFFFFFFFFFFFFF, 0]
   \<and> \<not> sorted (0xFFFFFFFFFFFFFFFE # map fst (run [Op_Signal, Op_Signal] idle_world 0xFFFFFFFFFFFFFFFE))"
  by (simp add: eval_run)


section \<open>Flush\<close>

text \<open>
  C3.  \<open>Flush\<close> is the composition \<open>wait(signal())\<close>.  Whenever \<open>Signal\<close> returns
  a value, that value is the counter plus one, and \<open>Flush\<close> is \<open>WaitForFenceValue\<close>
  for that very value (default duration) on the consumer \<open>Signal\<close> left.  Whatever the
  consumer has completed or has pending, a \<open>Flush\<close> that returns or throws has made a
  fresh call of the queue's \<open>Signal\<close> with the counter plus one first, and leaves
  the counter incremented by exactly one.
\<close>

theorem Flush_is_wait_of_signal:
  "Flush w counter ev = wait_of_signal w counter ev
   \<and> (Signal w counter = (Inr v, w1, counter1) \<longrightarrow>
        v = counter + 1 \<and> counter1 = counter + 1
        \<and> Flush w counter ev =
            map_option (\<lambda>(r, w'). (r, w', counter + 1))
              (WaitForFenceValue w1 v ev milliseconds_max))
   \<and> (Flush w counter ev = Some (r, w', counter') \<longrightarrow>
        counter' = counter + 1
        \<and> (\<exists>rest. calls w' = calls w @ Call_Signal (counter + 1) (signal_hr w) # rest))"
proof -
  have a: "Flush w counter ev = wait_of_signal w counter ev"
    by (cases "FAILED (signal_hr w)")
      (auto simp: Flush_def wait_of_signal_def call_with_def Signal_failed Signal_ok
        split: option.splits)
  have b: "v = counter + 1 \<and> counter1 = counter + 1
        \<and> Flush w counter ev =
            map_option (\<lambda>(r, w'). (r, w', counter + 1))
              (WaitForFenceValue w1 v ev milliseconds_max)"
    if s: "Signal w counter = (Inr v, w1, counter1)"
  proof (cases "FAILED (signal_hr w)")
    case True
    with s show ?thesis by (simp add: Signal_failed)
  next
    case False
    from s Signal_ok [OF False, of counter] have "v = counter + 1" and "counter1 = counter + 1"
      by auto
    with s show ?thesis by (auto simp: Flush_def split: option.splits)
  qed
  have c: "counter' = counter + 1
        \<and> (\<exists>rest. calls w' = calls w @ Call_Signal (counter + 1) (signal_hr w) # rest)"
    if f: "Flush w counter ev = Some (r, w', counter')"
  proof (cases "FAILED (signal_hr w)")
    case True
    with f show ?thesis by (auto simp: Flush_def Signal_failed)
  next
    case False
    let ?w1 = "w\<lparr>calls := calls w @ [Call_Signal (counter + 1) (signal_hr w)],
          queue := queue w @ [(latency w, counter + 1)]\<rparr>"
    from f have wt: "WaitForFenceValue ?w1 (counter + 1) ev milliseconds_max = Some (r, w')"
      and c': "counter' = counter + 1"
      by (auto simp: Flush_def Signal_ok [OF False] split: option.splits)
    from wait_calls_extend [OF wt] c' show ?thesis by auto
  qed
  from a b c show ?thesis by blast
qed

theorem Flush_is_wait_of_signal_witness:
  "Signal idle_world 0 = (Inr 1, idle_world\<lparr>calls := [Call_Signal 1 0], queue := [(5, 1)]\<rparr>, 1)
   \<and> Flush idle_world 0 7 = Some (Inr (), flushed_once, 1)
   \<and> Flush flushed_once 1 7 =
       Some (Inr (), flushed_once\<lparr>completed := 2, clock := 10,
               calls := calls flushed_once @
                 [Call_Signal 2 0, Call_GetCompletedValue 1, Call_SetEventOnCompletion 2 7 0,
                  Call_WaitForSingleObject 7 INFINITE WAIT_OBJECT_0]\<rparr>, 2)"
  using Flush_is_wait_of_signal [of idle_world 0 7 1
      "idle_world\<lparr>calls := [Call_Signal 1 0], queue := [(5, 1)]\<rparr>" 1 "Inr ()" flushed_once 1]
  by (simp add: eval_default)





section \<open>A wait that times out\<close>

text \<open>
  C5, as amended.  For every fence value and every duration of \<open>d\<close> milliseconds with
  \<open>0 \<le> d < 2^32 - 1\<close>: on a consumer that does not reach the value (the fence is
  below it and so is every pending signal) and accepts the registration,
  \<open>WaitForFenceValue\<close> returns within \<open>d\<close> milliseconds with the fence still below the
  value, and it returns normally: nothing is thrown, so the outcome of the call is the
  same as that of the call on a fence that has reached the value.  When the event was at
  rest, the return comes after exactly \<open>d\<close> milliseconds, the \<open>WAIT_TIMEOUT\<close> of the
  operating system's wait being dropped.
\<close>

theorem timed_out_wait_returns_normally:
  assumes "completed w < fenceValue"
    and "\<forall>v \<in> snd ` set (queue w). v < fenceValue"
    and "\<not> FAILED (event_hr w)"
    and "unat d < 2 ^ 32 - 1"
  shows "\<exists>w'. WaitForFenceValue w fenceValue ev d = Some (Inr (), w')
           \<and> clock w \<le> clock w' \<and> clock w' \<le> clock w + unat d
           \<and> completed w' < fenceValue
           \<and> (at_rest ev w \<longrightarrow>
                clock w' = clock w + unat d
                \<and> calls w' = calls w @ [Call_GetCompletedValue (completed w),
                     Call_SetEventOnCompletion fenceValue ev (event_hr w),
                     Call_WaitForSingleObject ev (to_DWORD d) WAIT_TIMEOUT])
           \<and> map_option fst (WaitForFenceValue w fenceValue ev d) =
               map_option fst (WaitForFenceValue (w\<lparr>completed := fenceValue\<rparr>) fenceValue ev d)"
proof -
  from wait_finite_returns [OF assms(1) assms(3) assms(4), of ev] obtain w' where
    ret: "WaitForFenceValue w fenceValue ev d = Some (Inr (), w')"
    and t: "clock w \<le> clock w'" "clock w' \<le> clock w + unat d"
    by blast
  from ret obtain st t' rest where
    b: "block ev (Some (unat d)) (completed w) (queue w)
          (pending w @ [(ev, fenceValue)]) (events_set w) = Some (st, t', completed w', rest)"
    by (auto simp: WaitForFenceValue_slow [OF assms(1) assms(3)]
        budget_of_small [OF assms(4)] split: option.splits)
  from block_value [OF b] assms(1) assms(2) have below: "completed w' < fenceValue" by auto
  have exact: "clock w' = clock w + unat d
                \<and> calls w' = calls w @ [Call_GetCompletedValue (completed w),
                     Call_SetEventOnCompletion fenceValue ev (event_hr w),
                     Call_WaitForSingleObject ev (to_DWORD d) WAIT_TIMEOUT]"
    if rest: "at_rest ev w"
  proof -
    from WaitForFenceValue_rest_Some [OF assms(1) assms(3) rest ret] obtain st t where
      u: "until_reached (Some fenceValue) (Some (unat d)) (completed w) (queue w)
            = Some (st, t, completed w', queue w')"
      and c: "clock w' = clock w + t"
      and cs: "calls w' = calls w @ [Call_GetCompletedValue (completed w),
                 Call_SetEventOnCompletion fenceValue ev (event_hr w),
                 Call_WaitForSingleObject ev (to_DWORD d) st]"
      by (auto simp: budget_of_small [OF assms(4)])
    from until_Some_result [OF u] below have "st \<noteq> WAIT_OBJECT_0" and "t = unat d"
      by (auto simp: reached_def split: if_splits)
    then have "st = WAIT_TIMEOUT" by (cases st) simp_all
    with c cs \<open>t = unat d\<close> show ?thesis by simp
  qed
  have sat: "map_option fst (WaitForFenceValue (w\<lparr>completed := fenceValue\<rparr>) fenceValue ev d)
             = Some (Inr ())"
    by (simp add: WaitForFenceValue_fast)
  from ret t below exact show ?thesis by (simp add: sat)
qed

theorem timed_out_wait_returns_normally_witness:
  "completed idle_world < 10
   \<and> queue idle_world = []
   \<and> \<not> FAILED (event_hr idle_world)
   \<and> unat (1 :: milliseconds) < 2 ^ 32 - 1
   \<and> at_rest 7 idle_world
   \<and> WaitForFenceValue idle_world 10 7 1 =
       Some (Inr (), idle_world\<lparr>clock := 1, pending := [(7, 10)],
               calls := [Call_GetCompletedValue 0, Call_SetEventOnCompletion 10 7 0,
                         Call_WaitForSingleObject 7 1 WAIT_TIMEOUT]\<rparr>)"
  using timed_out_wait_returns_normally [of idle_world 10 1 7]
  by (simp add: eval_defs)

text \<open>
  C5 as stated fails: a wait for 10 with a timeout of 1 ms on an idle consumer returns
  after 1 ms with the fence still at 0, and what it gives the caller is what a satisfied
  wait gives: a normal return, no error.  Nor does every finite duration bound the wait:
  the cast keeps the low 32 bits, so with \<open>2^32 - 1\<close> ms the same wait never returns,
  and with \<open>2^32\<close> ms it returns at once.  And where a registration is pending on the
  event, a wait of 7 ms for 10 is woken after 3 ms.
\<close>

theorem timeout_not_reported:
  "map_option fst (WaitForFenceValue idle_world 10 7 1) = Some (Inr ())
   \<and> map_option (completed \<circ> snd) (WaitForFenceValue idle_world 10 7 1) = Some 0
   \<and> map_option (clock \<circ> snd) (WaitForFenceValue idle_world 10 7 1) = Some 1
   \<and> map_option fst (WaitForFenceValue (idle_world\<lparr>completed := 10\<rparr>) 10 7 1) = Some (Inr ())
   \<and> WaitForFenceValue idle_world 10 7 4294967295 = None
   \<and> map_option (clock \<circ> snd) (WaitForFenceValue idle_world 10 7 4294967296) = Some 0
   \<and> map_option (completed \<circ> snd) (WaitForFenceValue idle_world 10 7 4294967296) = Some 0
   \<and> map_option (clock \<circ> snd) (WaitForFenceValue stale_world 10 7 7) = Some 10
   \<and> clock stale_world = 7"
  by (simp add: eval_defs)


section \<open>Failures of the device\<close>

text \<open>
  C6.  When the enqueue of the signal fails, \<open>Signal\<close> throws a \<open>DeviceError\<close> with the
  failing \<open>HRESULT\<close> out of the very call, having called the queue exactly once (no
  retry) and queued nothing; \<open>Flush\<close>, which has no handler, ends with the same error
  without waiting.  When the registration of the event fails, \<open>WaitForFenceValue\<close>
  throws likewise, having read the completed value and tried the registration once, and
  does not block; through \<open>Flush\<close> the error reaches the caller unchanged.
\<close>

theorem failures_propagate:
  "(FAILED (signal_hr w) \<longrightarrow>
      Signal w fenceValue =
        (Inl (DeviceError (signal_hr w)),
         w\<lparr>calls := calls w @ [Call_Signal (fenceValue + 1) (signal_hr w)]\<rparr>, fenceValue + 1)
      \<and> Flush w fenceValue ev =
        Some (Inl (DeviceError (signal_hr w)),
              w\<lparr>calls := calls w @ [Call_Signal (fenceValue + 1) (signal_hr w)]\<rparr>,
              fenceValue + 1))
   \<and> (completed w < target \<longrightarrow> FAILED (event_hr w) \<longrightarrow>
        WaitForFenceValue w target ev d =
          Some (Inl (DeviceError (event_hr w)),
                w\<lparr>calls := calls w @ [Call_GetCompletedValue (completed w),
                                        Call_SetEventOnCompletion target ev (event_hr w)]\<rparr>))
   \<and> (\<not> FAILED (signal_hr w) \<longrightarrow> completed w < fenceValue + 1 \<longrightarrow> FAILED (event_hr w) \<longrightarrow>
        Flush w fenceValue ev =
          Some (Inl (DeviceError (event_hr w)),
                w\<lparr>calls := calls w @ [Call_Signal (fenceValue + 1) (signal_hr w),
                                        Call_GetCompletedValue (completed w),
                                        Call_SetEventOnCompletion (fenceValue + 1) ev (event_hr w)],
                  queue := queue w @ [(latency w, fenceValue + 1)]\<rparr>,
                fenceValue + 1))"
proof -
  have a: "Flush w fenceValue ev =
        Some (Inl (DeviceError (signal_hr w)),
              w\<lparr>calls := calls w @ [Call_Signal (fenceValue + 1) (signal_hr w)]\<rparr>,
              fenceValue + 1)" if "FAILED (signal_hr w)"
    by (simp add: Flush_def Signal_failed [OF that])
  have b: "Flush w fenceValue ev =
          Some (Inl (DeviceError (event_hr w)),
                w\<lparr>calls := calls w @ [Call_Signal (fenceValue + 1) (signal_hr w),
                                        Call_GetCompletedValue (completed w),
                                        Call_SetEventOnCompletion (fenceValue + 1) ev (event_hr w)],
                  queue := queue w @ [(latency w, fenceValue + 1)]\<rparr>,
                fenceValue + 1)"
    if ok: "\<not> FAILED (signal_hr w)" and lt: "completed w < fenceValue + 1"
      and bad: "FAILED (event_hr w)"
    using lt bad
    by (simp add: Flush_def Signal_ok [OF ok] WaitForFenceValue_throw)
  from a b Signal_failed [of w fenceValue] WaitForFenceValue_throw [of w target ev d]
  show ?thesis by blast
qed

theorem failures_propagate_witness:
  "FAILED (signal_hr lost_world) \<and> FAILED (event_hr lost_world)
   \<and> completed lost_world < 1
   \<and> Signal lost_world 0 =
       (Inl (DeviceError 0x887A0005), lost_world\<lparr>calls := [Call_Signal 1 0x887A0005]\<rparr>, 1)
   \<and> Flush lost_world 0 7 =
       Some (Inl (DeviceError 0x887A0005), lost_world\<lparr>calls := [Call_Signal 1 0x887A0005]\<rparr>, 1)
   \<and> WaitForFenceValue lost_world 1 7 milliseconds_max =
       Some (Inl (DeviceError 0x887A0005),
             lost_world\<lparr>calls := [Call_GetCompletedValue 0,
                                    Call_SetEventOnCompletion 1 7 0x887A0005]\<rparr>)
   \<and> \<not> FAILED (signal_hr (idle_world\<lparr>event_hr := 0x887A0005\<rparr>))
   \<and> Flush (idle_world\<lparr>event_hr := 0x887A0005\<rparr>) 0 7 =
       Some (Inl (DeviceError 0x887A0005),
             idle_world\<lparr>event_hr := 0x887A0005,
               calls := [Call_Signal 1 0, Call_GetCompletedValue 0,
                         Call_SetEventOnCompletion 1 7 0x887A0005],
               queue := [(5, 1)]\<rparr>, 1)"
  using failures_propagate [of lost_world 0 7 1 milliseconds_max]
    failures_propagate [of "idle_world\<lparr>event_hr := 0x887A0005\<rparr>" 0 7 1 milliseconds_max]
  by (simp add: lost_world_def idle_world_def FAILED_def)


section \<open>The value a wait compares with\<close>

text \<open>
  C7.  \<open>WaitForFenceValue\<close> takes the path without a wait exactly when the completed
  value is at or above the fence value it was given, and on the other path the
  registration it makes is for that very value on the given event.  With two signals in
  flight (the counter at \<open>counter + 2\<close>) and the event at rest, a wait for the first one,
  \<open>counter + 1\<close>, returns as soon as the fence holds \<open>counter + 1\<close>, the second signal
  still pending: the wait is for the value passed, not for the counter.
\<close>

theorem wait_uses_exact_target:
  "(WaitForFenceValue w fenceValue ev d =
      Some (Inr (), w\<lparr>calls := calls w @ [Call_GetCompletedValue (completed w)]\<rparr>))
     = (fenceValue \<le> completed w)
   \<and> (completed w < fenceValue \<longrightarrow> WaitForFenceValue w fenceValue ev d = Some (r, w') \<longrightarrow>
        (\<exists>rest. calls w' = calls w @ [Call_GetCompletedValue (completed w),
                   Call_SetEventOnCompletion fenceValue ev (event_hr w)] @ rest))
   \<and> (\<not> FAILED (signal_hr w) \<longrightarrow> \<not> FAILED (event_hr w) \<longrightarrow> at_rest ev w \<longrightarrow>
        queue w = [] \<longrightarrow> completed w < counter + 1 \<longrightarrow>
        (case Signal w counter of (r1, w1, counter1) \<Rightarrow>
           case Signal w1 counter1 of (r2, w2, counter2) \<Rightarrow>
             r1 = Inr (counter + 1) \<and> r2 = Inr (counter + 2) \<and> counter2 = counter + 2
             \<and> (\<exists>w3. WaitForFenceValue w2 (counter + 1) ev milliseconds_max = Some (Inr (), w3)
                   \<and> completed w3 = counter + 1
                   \<and> queue w3 = [(latency w, counter + 2)]
                   \<and> clock w3 = clock w + latency w)))"
proof -
  have a: "(WaitForFenceValue w fenceValue ev d =
      Some (Inr (), w\<lparr>calls := calls w @ [Call_GetCompletedValue (completed w)]\<rparr>))
     = (fenceValue \<le> completed w)"
  proof (cases "fenceValue \<le> completed w")
    case True
    then show ?thesis by (simp add: WaitForFenceValue_fast)
  next
    case False
    then have lt: "completed w < fenceValue" by simp
    have "WaitForFenceValue w fenceValue ev d \<noteq>
      Some (Inr (), w\<lparr>calls := calls w @ [Call_GetCompletedValue (completed w)]\<rparr>)"
    proof
      assume "WaitForFenceValue w fenceValue ev d =
          Some (Inr (), w\<lparr>calls := calls w @ [Call_GetCompletedValue (completed w)]\<rparr>)"
      from wait_registers [OF lt this] show False by simp
    qed
    with False show ?thesis by simp
  qed
  have b: "\<exists>rest. calls w' = calls w @ [Call_GetCompletedValue (completed w),
                   Call_SetEventOnCompletion fenceValue ev (event_hr w)] @ rest"
    if "completed w < fenceValue" and "WaitForFenceValue w fenceValue ev d = Some (r, w')"
    using that by (rule wait_registers)
  have c: "(case Signal w counter of (r1, w1, counter1) \<Rightarrow>
           case Signal w1 counter1 of (r2, w2, counter2) \<Rightarrow>
             r1 = Inr (counter + 1) \<and> r2 = Inr (counter + 2) \<and> counter2 = counter + 2
             \<and> (\<exists>w3. WaitForFenceValue w2 (counter + 1) ev milliseconds_max = Some (Inr (), w3)
                   \<and> completed w3 = counter + 1
                   \<and> queue w3 = [(latency w, counter + 2)]
                   \<and> clock w3 = clock w + latency w))"
    if s: "\<not> FAILED (signal_hr w)" and e: "\<not> FAILED (event_hr w)" and rest: "at_rest ev w"
      and q: "queue w = []" and lt: "completed w < counter + 1"
  proof -
    let ?w1 = "w\<lparr>calls := calls w @ [Call_Signal (counter + 1) (signal_hr w)],
          queue := queue w @ [(latency w, counter + 1)]\<rparr>"
    let ?w2 = "?w1\<lparr>calls := calls ?w1 @ [Call_Signal (counter + 1 + 1) (signal_hr ?w1)],
          queue := queue ?w1 @ [(latency ?w1, counter + 1 + 1)]\<rparr>"
    have s1: "Signal w counter = (Inr (counter + 1), ?w1, counter + 1)"
      by (rule Signal_ok [OF s])
    have s2: "Signal ?w1 (counter + 1) = (Inr (counter + 1 + 1), ?w2, counter + 1 + 1)"
      by (rule Signal_ok) (simp add: s)
    have lt2: "completed ?w2 < counter + 1" using lt by simp
    have e2: "\<not> FAILED (event_hr ?w2)" using e by simp
    have r2: "at_rest ev ?w2" using rest by (simp add: at_rest_def)
    have u: "until_reached (Some (counter + 1)) None (completed ?w2) (queue ?w2)
              = Some (WAIT_OBJECT_0, latency w, counter + 1, [(latency w, counter + 2)])"
      using lt q by (simp add: reached_def not_le [symmetric])
    then have "until_reached (Some (counter + 1)) (budget_of milliseconds_max)
                 (completed ?w2) (queue ?w2) \<noteq> None"
      by (simp add: budget_of_max)
    from WaitForFenceValue_rest_wake [OF lt2 e2 r2 this] obtain w3 where
      wt: "WaitForFenceValue ?w2 (counter + 1) ev milliseconds_max = Some (Inr (), w3)"
      by blast
    from WaitForFenceValue_rest_Some [OF lt2 e2 r2 wt] u
    have "completed w3 = counter + 1 \<and> queue w3 = [(latency w, counter + 2)]
          \<and> clock w3 = clock w + latency w"
      by (auto simp: budget_of_max)
    with wt have w3: "\<exists>w3. WaitForFenceValue ?w2 (counter + 1) ev milliseconds_max
                     = Some (Inr (), w3)
                   \<and> completed w3 = counter + 1
                   \<and> queue w3 = [(latency w, counter + 2)]
                   \<and> clock w3 = clock w + latency w"
      by blast
    show ?thesis
      unfolding s1 s2 prod.case
      using w3 by simp
  qed
  show ?thesis
  proof (intro conjI)
    show "(WaitForFenceValue w fenceValue ev d =
      Some (Inr (), w\<lparr>calls := calls w @ [Call_GetCompletedValue (completed w)]\<rparr>))
     = (fenceValue \<le> completed w)" by (rule a)
  next
    show "completed w < fenceValue \<longrightarrow> WaitForFenceValue w fenceValue ev d = Some (r, w') \<longrightarrow>
        (\<exists>rest. calls w' = calls w @ [Call_GetCompletedValue (completed w),
                   Call_SetEventOnCompletion fenceValue ev (event_hr w)] @ rest)"
      using b by (intro impI)
  next
    show "\<not> FAILED (signal_hr w) \<longrightarrow> \<not> FAILED (event_hr w) \<longrightarrow> at_rest ev w \<longrightarrow>
        queue w = [] \<longrightarrow> completed w < counter + 1 \<longrightarrow>
        (case Signal w counter of (r1, w1, counter1) \<Rightarrow>
           case Signal w1 counter1 of (r2, w2, counter2) \<Rightarrow>
             r1 = Inr (counter + 1) \<and> r2 = Inr (counter + 2) \<and> counter2 = counter + 2
             \<and> (\<exists>w3. WaitForFenceValue w2 (counter + 1) ev milliseconds_max = Some (Inr (), w3)
                   \<and> completed w3 = counter + 1
                   \<and> queue w3 = [(latency w, counter + 2)]
                   \<and> clock w3 = clock w + latency w))"
      using c by (intro impI)
  qed
qed

theorem wait_uses_exact_target_witness:
  "completed busy_world < 1
   \<and> WaitForFenceValue busy_world 1 7 milliseconds_max =
       Some (Inr (), busy_world\<lparr>completed := 1, queue := [(5, 2)], clock := 5,
               calls := [Call_GetCompletedValue 0, Call_SetEventOnCompletion 1 7 0,
                         Call_WaitForSingleObject 7 INFINITE WAIT_OBJECT_0]\<rparr>)
   \<and> \<not> FAILED (signal_hr idle_world) \<and> \<not> FAILED (event_hr idle_world)
   \<and> at_rest 7 idle_world
   \<and> queue idle_world = [] \<and> completed idle_world < 0 + 1
   \<and> Signal idle_world 0 =
       (Inr 1, idle_world\<lparr>calls := [Call_Signal 1 0], queue := [(5, 1)]\<rparr>, 1)
   \<and> Signal (idle_world\<lparr>calls := [Call_Signal 1 0], queue := [(5, 1)]\<rparr>) 1 =
       (Inr 2, idle_world\<lparr>calls := [Call_Signal 1 0, Call_Signal 2 0],
                 queue := [(5, 1), (5, 2)]\<rparr>, 2)
   \<and> WaitForFenceValue
         (idle_world\<lparr>calls := [Call_Signal 1 0, Call_Signal 2 0],
                 queue := [(5, 1), (5, 2)]\<rparr>) 1 7 milliseconds_max =
       Some (Inr (), idle_world\<lparr>completed := 1, queue := [(5, 2)], clock := 5,
               calls := [Call_Signal 1 0, Call_Signal 2 0, Call_GetCompletedValue 0,
                         Call_SetEventOnCompletion 1 7 0,
                         Call_WaitForSingleObject 7 INFINITE WAIT_OBJECT_0]\<rparr>)"
  using wait_uses_exact_target [of busy_world 1 7 milliseconds_max "Inr ()"
      "busy_world\<lparr>completed := 1, queue := [(5, 2)], clock := 5,
               calls := [Call_GetCompletedValue 0, Call_SetEventOnCompletion 1 7 0,
                         Call_WaitForSingleObject 7 INFINITE WAIT_OBJECT_0]\<rparr>"]
    wait_uses_exact_target [where w = idle_world and counter = 0 and ev = 7]
  by (simp add: eval_default)


section \<open>The slots of the render loop\<close>

lemma frame_report:
  assumes "frame ev w t = Some (Inr r, w', t')"
  shows "slot_used r = (g_CurrentBackBufferIndex t + 1) mod 3"
    and "waited_for r = g_FrameFenceValues t ! slot_used r"
    and "signalled r = g_FenceValue t + 1"
    and "g_CurrentBackBufferIndex t' = slot_used r"
    and "g_FrameFenceValues t' = (g_FrameFenceValues t)[slot_used r := signalled r]"
    and "g_FenceValue t' = g_FenceValue t + 1"
proof -
  let ?slot = "(g_CurrentBackBufferIndex t + 1) mod 3"
  let ?target = "g_FrameFenceValues t ! ?slot"
  from assms obtain u w1 where
    wt: "WaitForFenceValue w ?target ev milliseconds_max = Some (Inr u, w1)"
    by (auto simp: frame_def g_NumFrames_def Let_def split: option.splits sum.splits prod.splits)
  have "r = \<lparr>slot_used = ?slot, waited_for = ?target, signalled = g_FenceValue t + 1\<rparr>
        \<and> t' = t\<lparr>g_CurrentBackBufferIndex := ?slot, g_FenceValue := g_FenceValue t + 1,
                  g_FrameFenceValues := (g_FrameFenceValues t)[?slot := g_FenceValue t + 1]\<rparr>"
  proof (cases "FAILED (signal_hr w1)")
    case True
    with assms wt show ?thesis
      by (simp add: frame_def g_NumFrames_def Let_def Signal_failed)
  next
    case False
    with assms wt show ?thesis
      by (auto simp: frame_def g_NumFrames_def Let_def Signal_ok)
  qed
  then show "slot_used r = (g_CurrentBackBufferIndex t + 1) mod 3"
    and "waited_for r = g_FrameFenceValues t ! slot_used r"
    and "signalled r = g_FenceValue t + 1"
    and "g_CurrentBackBufferIndex t' = slot_used r"
    and "g_FrameFenceValues t' = (g_FrameFenceValues t)[slot_used r := signalled r]"
    and "g_FenceValue t' = g_FenceValue t + 1"
    by simp_all
qed







lemma frames_length: "length (frames n ev w t) \<le> n"
  by (induction n arbitrary: w t) (auto split: option.splits sum.splits)









section \<open>The command line\<close>

lemma loop_body_height:
  "g_ClientHeight (snd (snd (loop_body wcstol argv i s))) = g_ClientHeight s"
  by (simp add: loop_body_def Let_def)

lemma parse_loop_height:
  "g_ClientHeight (snd (parse_loop wcstol argv i s)) = g_ClientHeight s"
proof (induction wcstol argv i s rule: parse_loop.induct)
  case (1 wcstol argv i s)
  show ?case
  proof (cases "i < length argv")
    case False
    then show ?thesis by (simp add: parse_loop.simps [of wcstol argv i s])
  next
    case True
    obtain f i' s' where b: "loop_body wcstol argv i s = (f, i', s')"
      by (cases "loop_body wcstol argv i s")
    from loop_body_height [of wcstol argv i s] b
    have h: "g_ClientHeight s' = g_ClientHeight s" by simp
    show ?thesis
    proof (cases f)
      case None
      from "1.IH" [OF True b [symmetric, unfolded None] refl] h True b None
      show ?thesis by (simp add: parse_loop.simps [of wcstol argv i s])
    next
      case (Some e)
      with True b h show ?thesis by (simp add: parse_loop.simps [of wcstol argv i s])
    qed
  qed
qed

lemma height_not_width: "height_option a \<Longrightarrow> \<not> width_option a"
  by (auto simp: height_option_def width_option_def L_def)

text \<open>
  C9.  \<open>ParseCommandLineArgs\<close> never writes \<open>g_ClientHeight\<close>: for every command line,
  whatever \<open>wcstol\<close> returns and whether the loop ends or runs off the end of
  \<open>argv\<close>, the height is what it was, so from the initial globals it stays 768.  At an
  index that holds \<open>-h\<close> or \<open>--height\<close> and has an argument after it, the body of
  the loop stores the parsed argument in \<open>g_ClientWidth\<close>, the variable of
  \<open>-w\<close> and \<open>--width\<close>.
\<close>

theorem height_never_written:
  "g_ClientHeight (snd (ParseCommandLineArgs wcstol argv s)) = g_ClientHeight s
   \<and> g_ClientHeight (snd (ParseCommandLineArgs wcstol argv initial_settings)) = 768
   \<and> (height_option (argv ! i) \<longrightarrow> Suc i < length argv \<longrightarrow>
        fst (loop_body wcstol argv i s) = None
        \<and> fst (snd (loop_body wcstol argv i s)) = Suc i
        \<and> g_ClientWidth (snd (snd (loop_body wcstol argv i s))) = wcstol (argv ! Suc i)
        \<and> g_ClientHeight (snd (snd (loop_body wcstol argv i s))) = g_ClientHeight s)"
proof -
  have a: "g_ClientHeight (snd (ParseCommandLineArgs wcstol argv s')) = g_ClientHeight s'" for s'
    by (simp add: ParseCommandLineArgs_def parse_loop_height)
  have b: "fst (loop_body wcstol argv i s) = None
        \<and> fst (snd (loop_body wcstol argv i s)) = Suc i
        \<and> g_ClientWidth (snd (snd (loop_body wcstol argv i s))) = wcstol (argv ! Suc i)
        \<and> g_ClientHeight (snd (snd (loop_body wcstol argv i s))) = g_ClientHeight s"
    if "height_option (argv ! i)" and "Suc i < length argv"
    using that height_not_width [OF that(1)]
    by (simp add: loop_body_def Let_def)
  from a [of s] a [of initial_settings] b show ?thesis
    by (simp add: initial_settings_def)
qed

theorem height_never_written_witness:
  "height_option ([L ''app.exe'', L ''-h'', L ''600''] ! 1)
   \<and> Suc 1 < length [L ''app.exe'', L ''-h'', L ''600'']
   \<and> ParseCommandLineArgs wcstol_base10 [L ''app.exe'', L ''-h'', L ''600''] initial_settings
       = (None, initial_settings\<lparr>g_ClientWidth := 600\<rparr>)
   \<and> g_ClientHeight (initial_settings\<lparr>g_ClientWidth := 600\<rparr>) = 768"
  using height_never_written [of wcstol_base10 "[L ''app.exe'', L ''-h'', L ''600'']"
      initial_settings 1]
  by (simp add: ParseCommandLineArgs_def parse_loop.simps loop_body_def Let_def L_def
     width_option_def height_option_def warp_option_def wcstol_base10_def iswspace_def
     initial_settings_def)


section \<open>The default duration\<close>

lemma wait_no_timeout:
  assumes "WaitForFenceValue w fenceValue ev milliseconds_max = Some (r, w')"
  shows "\<exists>new. calls w' = calls w @ new
               \<and> (\<forall>e m. Call_WaitForSingleObject e m WAIT_TIMEOUT \<notin> set new)"
proof (cases "fenceValue \<le> completed w")
  case True
  with assms show ?thesis by (auto simp: WaitForFenceValue_fast)
next
  case False
  then have lt: "completed w < fenceValue" by simp
  show ?thesis
  proof (cases "FAILED (event_hr w)")
    case True
    with assms show ?thesis by (auto simp: WaitForFenceValue_throw [OF lt])
  next
    case ok: False
    from assms obtain st rest where
      b: "block ev None (completed w) (queue w) (pending w @ [(ev, fenceValue)]) (events_set w)
            = Some (st, rest)"
      and cs: "calls w' = calls w @ [Call_GetCompletedValue (completed w),
                 Call_SetEventOnCompletion fenceValue ev (event_hr w),
                 Call_WaitForSingleObject ev (to_DWORD milliseconds_max) st]"
      by (auto simp: WaitForFenceValue_slow [OF lt ok] budget_of_max split: option.splits)
    from block_None_status [OF b] cs show ?thesis by simp
  qed
qed

text \<open>
  C10.  The default duration, \<open>std::chrono::milliseconds::max()\<close>, is \<open>2^63 - 1\<close>;
  cast to a \<open>DWORD\<close> it is \<open>2^32 - 1 = 0xFFFFFFFF\<close>, the value of \<open>INFINITE\<close>,
  since \<open>2^63 - 1\<close> modulo \<open>2^32\<close> is \<open>2^32 - 1\<close>.  So a wait with the default
  duration never times out: whenever it returns, no call it made to the operating
  system's wait ended in \<open>WAIT_TIMEOUT\<close>; and if the event was at rest and the wait
  returned normally, the fence has reached the value waited for.
\<close>

theorem default_duration_is_INFINITE:
  "to_DWORD milliseconds_max = INFINITE
   \<and> unat INFINITE = 2 ^ 32 - 1
   \<and> unat milliseconds_max = 2 ^ 63 - 1
   \<and> unat milliseconds_max mod 2 ^ 32 = 2 ^ 32 - 1
   \<and> (WaitForFenceValue w fenceValue ev milliseconds_max = Some (r, w') \<longrightarrow>
        (\<exists>new. calls w' = calls w @ new
               \<and> (\<forall>e m. Call_WaitForSingleObject e m WAIT_TIMEOUT \<notin> set new))
        \<and> (r = Inr () \<longrightarrow> at_rest ev w \<longrightarrow> fenceValue \<le> completed w'))"
proof -
  have cast: "to_DWORD milliseconds_max = INFINITE" by (rule to_DWORD_max)
  have inf: "unat INFINITE = 2 ^ 32 - 1" by (simp add: INFINITE_def)
  have mx: "unat milliseconds_max = 2 ^ 63 - 1" by (simp add: milliseconds_max_def)
  have md: "unat milliseconds_max mod 2 ^ 32 = 2 ^ 32 - 1" by (simp add: milliseconds_max_def)
  have wait: "(\<exists>new. calls w' = calls w @ new
               \<and> (\<forall>e m. Call_WaitForSingleObject e m WAIT_TIMEOUT \<notin> set new))
        \<and> (r = Inr () \<longrightarrow> at_rest ev w \<longrightarrow> fenceValue \<le> completed w')"
    if ret: "WaitForFenceValue w fenceValue ev milliseconds_max = Some (r, w')"
  proof -
    have "fenceValue \<le> completed w'" if "r = Inr ()" and "at_rest ev w"
      using wait_INFINITE_reached [OF ret [unfolded that(1)] that(2)] by simp
    with wait_no_timeout [OF ret] show ?thesis by simp
  qed
  show ?thesis
  proof (intro conjI)
    show "WaitForFenceValue w fenceValue ev milliseconds_max = Some (r, w') \<longrightarrow>
        (\<exists>new. calls w' = calls w @ new
               \<and> (\<forall>e m. Call_WaitForSingleObject e m WAIT_TIMEOUT \<notin> set new))
        \<and> (r = Inr () \<longrightarrow> at_rest ev w \<longrightarrow> fenceValue \<le> completed w')"
      using wait by (rule impI)
  qed (rule cast inf mx md)+
qed

theorem default_duration_is_INFINITE_witness:
  "WaitForFenceValue busy_world 1 7 milliseconds_max =
     Some (Inr (), busy_world\<lparr>completed := 1, queue := [(5, 2)], clock := 5,
             calls := [Call_GetCompletedValue 0, Call_SetEventOnCompletion 1 7 0,
                       Call_WaitForSingleObject 7 INFINITE WAIT_OBJECT_0]\<rparr>)
   \<and> at_rest 7 busy_world
   \<and> (1 :: uint64_t) \<le> completed (busy_world\<lparr>completed := 1, queue := [(5, 2)], clock := 5,
             calls := [Call_GetCompletedValue 0, Call_SetEventOnCompletion 1 7 0,
                       Call_WaitForSingleObject 7 INFINITE WAIT_OBJECT_0]\<rparr>)"
  using default_duration_is_INFINITE [of busy_world 1 7 "Inr ()"
      "busy_world\<lparr>completed := 1, queue := [(5, 2)], clock := 5,
             calls := [Call_GetCompletedValue 0, Call_SetEventOnCompletion 1 7 0,
                       Call_WaitForSingleObject 7 INFINITE WAIT_OBJECT_0]\<rparr>"]
  by (simp add: eval_default)

end
